theory Spec2Isabelle
  imports Main "HOL-Library.Multiset"
begin

section \<open>frozen::set: an immutable sorted set over a fixed-size array\<close>

text \<open>
  The development follows \<^verbatim>\<open>include/frozen/set.h\<close>. A \<^verbatim>\<open>bits::carray<Key, N>\<close>
  is a list of exactly \<open>N\<close> keys, \<open>N\<close> being the length of the list; an iterator
  into it is an index, \<open>0\<close> for \<^verbatim>\<open>begin()\<close> and \<open>N\<close> for \<^verbatim>\<open>end()\<close>. A
  \<^verbatim>\<open>Compare\<close> object is the binary predicate it computes.
\<close>

type_synonym 'k Compare = "'k \<Rightarrow> 'k \<Rightarrow> bool"

type_synonym 'k carray = "'k list"

subsection \<open>The collaborators in \<^verbatim>\<open>frozen/bits\<close>\<close>

text \<open>
  Modelled from the spec: \<^verbatim>\<open>bits::carray\<close>'s constructor from a braced list
  (\<^verbatim>\<open>frozen/bits/basic_types.h\<close> is not among the sources). The storage holds exactly
  \<open>N\<close> keys, the first \<open>N\<close> of the list in the list's order. The spec does not say what
  a slot past the end of a shorter list holds, so that content is the parameter \<open>junk\<close>.
\<close>

definition carray_init :: "nat \<Rightarrow> (nat \<Rightarrow> 'k) \<Rightarrow> 'k list \<Rightarrow> 'k carray" where
  "carray_init N junk init = map (\<lambda>i. if i < length init then init ! i else junk i) [0..<N]"

text \<open>
  Modelled from the spec: \<^verbatim>\<open>constexpr_assert\<close> (\<^verbatim>\<open>frozen/bits/constexpr_assert.h\<close>
  is not among the sources): given a condition and a message, it halts construction when
  the condition is false. The halt is the error value \<open>Abort\<close> carrying the message.
\<close>

datatype error = Abort string

definition constexpr_assert :: "bool \<Rightarrow> string \<Rightarrow> error + unit" where
  "constexpr_assert cond msg = (if cond then Inr () else Inl (Abort msg))"

text \<open>
  Modelled from the spec: \<^verbatim>\<open>bits::quicksort\<close> (\<^verbatim>\<open>frozen/bits/algorithms.h\<close> is not
  among the sources). Section 4.1: select a pivot, partition the other elements into the
  group that compares less than the pivot and the group that does not, recurse on each
  group, and stop when a partition has at most one element. The spec does not fix how the
  pivot is selected, so the selection is the parameter \<open>pivot\<close>, which maps a partition to
  an index (taken modulo the partition's length).
\<close>

definition remove_nth :: "nat \<Rightarrow> 'k list \<Rightarrow> 'k list" where
  "remove_nth p xs = take p xs @ drop (Suc p) xs"

function quicksort :: "('k list \<Rightarrow> nat) \<Rightarrow> 'k carray \<Rightarrow> 'k Compare \<Rightarrow> 'k carray" where
  "quicksort pivot xs compare =
     (if length xs \<le> 1 then xs
      else
        quicksort pivot
          (filter (\<lambda>x. compare x (xs ! (pivot xs mod length xs)))
             (remove_nth (pivot xs mod length xs) xs)) compare
        @ (xs ! (pivot xs mod length xs))
        # quicksort pivot
            (filter (\<lambda>x. \<not> compare x (xs ! (pivot xs mod length xs)))
               (remove_nth (pivot xs mod length xs) xs)) compare)"
  by pat_completeness auto
termination
proof (relation "measure (\<lambda>(pivot, xs, compare). length xs)")
  show "wf (measure (\<lambda>(pivot, xs, compare). length xs))"
    by simp
next
  fix pivot :: "'k list \<Rightarrow> nat" and xs :: "'k list" and compare :: "'k Compare"
  assume "\<not> length xs \<le> 1"
  then have "0 < length xs"
    by arith
  then have "pivot xs mod length xs < length xs"
    by simp
  then have shorter: "length (remove_nth (pivot xs mod length xs) xs) < length xs"
    by (simp add: remove_nth_def)
  have "length (filter (\<lambda>x. compare x (xs ! (pivot xs mod length xs)))
      (remove_nth (pivot xs mod length xs) xs)) < length xs"
    by (rule le_less_trans [OF length_filter_le shorter])
  then show "((pivot, filter (\<lambda>x. compare x (xs ! (pivot xs mod length xs)))
      (remove_nth (pivot xs mod length xs) xs), compare), (pivot, xs, compare))
      \<in> measure (\<lambda>(pivot, xs, compare). length xs)"
    by simp
next
  fix pivot :: "'k list \<Rightarrow> nat" and xs :: "'k list" and compare :: "'k Compare"
  assume "\<not> length xs \<le> 1"
  then have "0 < length xs"
    by arith
  then have "pivot xs mod length xs < length xs"
    by simp
  then have shorter: "length (remove_nth (pivot xs mod length xs) xs) < length xs"
    by (simp add: remove_nth_def)
  have "length (filter (\<lambda>x. \<not> compare x (xs ! (pivot xs mod length xs)))
      (remove_nth (pivot xs mod length xs) xs)) < length xs"
    by (rule le_less_trans [OF length_filter_le shorter])
  then show "((pivot, filter (\<lambda>x. \<not> compare x (xs ! (pivot xs mod length xs)))
      (remove_nth (pivot xs mod length xs) xs), compare), (pivot, xs, compare))
      \<in> measure (\<lambda>(pivot, xs, compare). length xs)"
    by simp
qed

declare quicksort.simps [simp del]

text \<open>
  Modelled from the spec: \<^verbatim>\<open>bits::lower_bound<N>\<close> (\<^verbatim>\<open>frozen/bits/algorithms.h\<close> is
  not among the sources). Section 4.2: a halving search over the indices \<open>[0, N)\<close>,
  narrowing by the comparator's result at the midpoint, with no comparator call when
  \<open>N = 0\<close>. \<open>doit\<close> searches the \<open>n\<close> positions from \<open>first\<close> on: when the midpoint
  element orders before the key the search goes on behind it, otherwise in front of it.
  The midpoint \<open>first + n div 2\<close> lies among the \<open>n\<close> positions searched, so every
  read is inside the array when the range is.
\<close>

function doit :: "'k carray \<Rightarrow> 'k \<Rightarrow> 'k Compare \<Rightarrow> nat \<Rightarrow> nat \<Rightarrow> nat" where
  "doit xs key compare first n =
     (if n = 0 then first
      else if compare (xs ! (first + n div 2)) key
        then doit xs key compare (first + n div 2 + 1) (n - (n div 2 + 1))
        else doit xs key compare first (n div 2))"
  by pat_completeness auto
termination
  by (relation "measure (\<lambda>(xs, key, compare, first, n). n)") auto

declare doit.simps [simp del]

definition bits_lower_bound :: "'k carray \<Rightarrow> 'k \<Rightarrow> 'k Compare \<Rightarrow> nat" where
  "bits_lower_bound xs key compare = doit xs key compare 0 (length xs)"

text \<open>
  Modelled from the spec: \<^verbatim>\<open>bits::binary_search<N>\<close> (\<^verbatim>\<open>frozen/bits/algorithms.h\<close>
  is not among the sources). Section 4.2: the membership test of the search engine, true
  when the halving search stops at an element that the key does not order before.
\<close>

definition bits_binary_search :: "'k carray \<Rightarrow> 'k \<Rightarrow> 'k Compare \<Rightarrow> bool" where
  "bits_binary_search xs key compare =
     (let w = bits_lower_bound xs key compare
      in w \<noteq> length xs \<and> \<not> compare key (xs ! w))"

subsection \<open>The class template \<^verbatim>\<open>set<Key, N, Compare>\<close>\<close>

record 'k frozen_set =
  m_compare :: "'k Compare"
  m_keys :: "'k carray"

text \<open>
  The members \<^verbatim>\<open>compare_\<close> and \<^verbatim>\<open>keys_\<close> are the fields \<open>m_compare\<close> and
  \<open>m_keys\<close> (a name cannot end in an underscore here). The template parameter \<open>N\<close>
  is the number of slots of \<open>m_keys\<close>.
\<close>

definition set_N :: "'k frozen_set \<Rightarrow> nat" where
  "set_N s = length (m_keys s)"

text \<open>
  \<^verbatim>\<open>set(container_type keys, Compare const & comp)\<close>: the comparator is copied and
  the keys are stored sorted.
\<close>

definition set_ctor :: "('k list \<Rightarrow> nat) \<Rightarrow> 'k carray \<Rightarrow> 'k Compare \<Rightarrow> 'k frozen_set" where
  "set_ctor pivot keys cmp = \<lparr>m_compare = cmp, m_keys = quicksort pivot keys cmp\<rparr>"

text \<open>
  \<^verbatim>\<open>set(std::initializer_list<Key> keys, Compare const & comp)\<close>: the delegated
  constructor builds the set from \<^verbatim>\<open>container_type{keys}\<close>, then the body asserts that
  the list has \<open>N\<close> elements.
\<close>

definition set_ctor_list ::
  "('k list \<Rightarrow> nat) \<Rightarrow> nat \<Rightarrow> (nat \<Rightarrow> 'k) \<Rightarrow> 'k list \<Rightarrow> 'k Compare \<Rightarrow> error + 'k frozen_set" where
  "set_ctor_list pivot N junk keys cmp =
     (let s = set_ctor pivot (carray_init N junk keys) cmp
      in case constexpr_assert (length keys = N)
             ''Inconsistent initializer_list size and type size argument'' of
           Inl e \<Rightarrow> Inl e
         | Inr _ \<Rightarrow> Inr s)"

text \<open>Capacity.\<close>

definition set_empty :: "'k frozen_set \<Rightarrow> bool" where
  "set_empty s = (\<not> (set_N s \<noteq> 0))"

definition set_size :: "'k frozen_set \<Rightarrow> nat" where
  "set_size s = set_N s"

definition set_max_size :: "'k frozen_set \<Rightarrow> nat" where
  "set_max_size s = set_N s"

text \<open>Iterators.\<close>

definition set_begin :: "'k frozen_set \<Rightarrow> nat" where
  "set_begin s = 0"

definition set_end :: "'k frozen_set \<Rightarrow> nat" where
  "set_end s = length (m_keys s)"

text \<open>Lookup.\<close>

definition set_count :: "'k frozen_set \<Rightarrow> 'k \<Rightarrow> nat" where
  "set_count s key = (if bits_binary_search (m_keys s) key (m_compare s) then 1 else 0)"

definition set_lower_bound :: "'k frozen_set \<Rightarrow> 'k \<Rightarrow> nat" where
  "set_lower_bound s key =
     (let w = bits_lower_bound (m_keys s) key (m_compare s)
      in if w \<noteq> set_end s \<and> \<not> m_compare s key (m_keys s ! w) then w else set_end s)"

definition set_find :: "'k frozen_set \<Rightarrow> 'k \<Rightarrow> nat" where
  "set_find s key =
     (let w = set_lower_bound s key
      in if w \<noteq> set_end s \<and> \<not> m_compare s key (m_keys s ! w) then w else set_end s)"

definition set_equal_range :: "'k frozen_set \<Rightarrow> 'k \<Rightarrow> nat \<times> nat" where
  "set_equal_range s key =
     (let lower = set_lower_bound s key
      in if lower = set_end s then (lower, lower) else (lower, lower + 1))"

definition set_upper_bound :: "'k frozen_set \<Rightarrow> 'k \<Rightarrow> nat" where
  "set_upper_bound s key =
     (let w = bits_lower_bound (m_keys s) key (m_compare s)
      in if w \<noteq> set_end s \<and> \<not> m_compare s key (m_keys s ! w) then w + 1 else set_end s)"

text \<open>
  Forward iteration from \<^verbatim>\<open>begin()\<close> to \<^verbatim>\<open>end()\<close> reads the stored keys in order,
  reverse iteration from \<^verbatim>\<open>rbegin()\<close> to \<^verbatim>\<open>rend()\<close> reads them backwards.
\<close>

definition set_iterate :: "'k frozen_set \<Rightarrow> 'k list" where
  "set_iterate s = map (\<lambda>i. m_keys s ! i) [set_begin s..<set_end s]"

definition set_reverse_iterate :: "'k frozen_set \<Rightarrow> 'k list" where
  "set_reverse_iterate s = rev (set_iterate s)"

subsection \<open>The specialization \<^verbatim>\<open>set<Key, 0, Compare>\<close>\<close>

text \<open>
  The specialization keeps the comparator only. Its iterators are pointers, and every
  iterator it hands out is the null pointer.
\<close>

datatype const_pointer = Nullptr | Element nat

record 'k frozen_set0 =
  m_compare0 :: "'k Compare"

text \<open>\<^verbatim>\<open>set(std::initializer_list<Key>, Compare const & comp)\<close>: the list is ignored.\<close>

definition set0_ctor_list :: "'k list \<Rightarrow> 'k Compare \<Rightarrow> 'k frozen_set0" where
  "set0_ctor_list keys cmp = \<lparr>m_compare0 = cmp\<rparr>"

definition set0_empty :: "'k frozen_set0 \<Rightarrow> bool" where
  "set0_empty s = True"

definition set0_size :: "'k frozen_set0 \<Rightarrow> nat" where
  "set0_size s = 0"

definition set0_max_size :: "'k frozen_set0 \<Rightarrow> nat" where
  "set0_max_size s = 0"

definition set0_begin :: "'k frozen_set0 \<Rightarrow> const_pointer" where
  "set0_begin s = Nullptr"

definition set0_end :: "'k frozen_set0 \<Rightarrow> const_pointer" where
  "set0_end s = Nullptr"

definition set0_rbegin :: "'k frozen_set0 \<Rightarrow> const_pointer" where
  "set0_rbegin s = Nullptr"

definition set0_rend :: "'k frozen_set0 \<Rightarrow> const_pointer" where
  "set0_rend s = Nullptr"

definition set0_count :: "'k frozen_set0 \<Rightarrow> 'k \<Rightarrow> nat" where
  "set0_count s key = 0"

definition set0_find :: "'k frozen_set0 \<Rightarrow> 'k \<Rightarrow> const_pointer" where
  "set0_find s key = set0_end s"

definition set0_equal_range :: "'k frozen_set0 \<Rightarrow> 'k \<Rightarrow> const_pointer \<times> const_pointer" where
  "set0_equal_range s key = (set0_end s, set0_end s)"

definition set0_lower_bound :: "'k frozen_set0 \<Rightarrow> 'k \<Rightarrow> const_pointer" where
  "set0_lower_bound s key = set0_end s"

definition set0_upper_bound :: "'k frozen_set0 \<Rightarrow> 'k \<Rightarrow> const_pointer" where
  "set0_upper_bound s key = set0_end s"

subsection \<open>Construction from a braced key list at a declared capacity\<close>

text \<open>
  \<^verbatim>\<open>frozen::set<Key, N> s{k1, ..., kn}\<close>: the compiler selects the specialization when
  \<open>N = 0\<close> and the primary template otherwise, and calls the constructor that takes the
  \<^verbatim>\<open>std::initializer_list\<close>.
\<close>

datatype 'k any_set = Primary "'k frozen_set" | Specialization "'k frozen_set0"

definition construct ::
  "('k list \<Rightarrow> nat) \<Rightarrow> nat \<Rightarrow> (nat \<Rightarrow> 'k) \<Rightarrow> 'k list \<Rightarrow> 'k Compare \<Rightarrow> error + 'k any_set" where
  "construct pivot N junk keys cmp =
     (if N = 0 then Inr (Specialization (set0_ctor_list keys cmp))
      else case set_ctor_list pivot N junk keys cmp of
             Inl e \<Rightarrow> Inl e
           | Inr s \<Rightarrow> Inr (Primary s))"

subsection \<open>Query operations as calls on the object\<close>

text \<open>
  Every lookup, capacity and iterator operation is a \<^verbatim>\<open>const\<close> member function, and
  both members are \<^verbatim>\<open>const\<close>: a call returns its answer and leaves the object as it
  found it. \<open>call\<close> returns the answer together with the object after the call.
\<close>

datatype 'k query =
    Count 'k | Find 'k | Lower_bound 'k | Upper_bound 'k | Equal_range 'k
  | Size | Empty | Max_size | Begin | End | Iterate | Reverse_iterate

datatype 'k answer =
    Number nat | Position nat | Range "nat \<times> nat" | Flag bool | Keys "'k list"

definition call :: "'k frozen_set \<Rightarrow> 'k query \<Rightarrow> 'k answer \<times> 'k frozen_set" where
  "call s q =
     (case q of
        Count key \<Rightarrow> (Number (set_count s key), s)
      | Find key \<Rightarrow> (Position (set_find s key), s)
      | Lower_bound key \<Rightarrow> (Position (set_lower_bound s key), s)
      | Upper_bound key \<Rightarrow> (Position (set_upper_bound s key), s)
      | Equal_range key \<Rightarrow> (Range (set_equal_range s key), s)
      | Size \<Rightarrow> (Number (set_size s), s)
      | Empty \<Rightarrow> (Flag (set_empty s), s)
      | Max_size \<Rightarrow> (Number (set_max_size s), s)
      | Begin \<Rightarrow> (Position (set_begin s), s)
      | End \<Rightarrow> (Position (set_end s), s)
      | Iterate \<Rightarrow> (Keys (set_iterate s), s)
      | Reverse_iterate \<Rightarrow> (Keys (set_reverse_iterate s), s))"

fun calls :: "'k frozen_set \<Rightarrow> 'k query list \<Rightarrow> 'k answer list \<times> 'k frozen_set" where
  "calls s [] = ([], s)"
| "calls s (q # qs) =
     (case call s q of (a, s') \<Rightarrow> (case calls s' qs of (as, s'') \<Rightarrow> (a # as, s'')))"

text \<open>
  The same for the specialization, whose operations are \<^verbatim>\<open>constexpr\<close> and
  \<^verbatim>\<open>const\<close> as well. Its iterators are null pointers, so an iteration is answered by
  the pair of pointers it would run between.
\<close>

datatype answer0 =
    Number0 nat | Pointer const_pointer | Pointers "const_pointer \<times> const_pointer"
  | Flag0 bool

definition call0 :: "'k frozen_set0 \<Rightarrow> 'k query \<Rightarrow> answer0 \<times> 'k frozen_set0" where
  "call0 s q =
     (case q of
        Count key \<Rightarrow> (Number0 (set0_count s key), s)
      | Find key \<Rightarrow> (Pointer (set0_find s key), s)
      | Lower_bound key \<Rightarrow> (Pointer (set0_lower_bound s key), s)
      | Upper_bound key \<Rightarrow> (Pointer (set0_upper_bound s key), s)
      | Equal_range key \<Rightarrow> (Pointers (set0_equal_range s key), s)
      | Size \<Rightarrow> (Number0 (set0_size s), s)
      | Empty \<Rightarrow> (Flag0 (set0_empty s), s)
      | Max_size \<Rightarrow> (Number0 (set0_max_size s), s)
      | Begin \<Rightarrow> (Pointer (set0_begin s), s)
      | End \<Rightarrow> (Pointer (set0_end s), s)
      | Iterate \<Rightarrow> (Pointers (set0_begin s, set0_end s), s)
      | Reverse_iterate \<Rightarrow> (Pointers (set0_rbegin s, set0_rend s), s))"

fun calls0 :: "'k frozen_set0 \<Rightarrow> 'k query list \<Rightarrow> answer0 list \<times> 'k frozen_set0" where
  "calls0 s [] = ([], s)"
| "calls0 s (q # qs) =
     (case call0 s q of (a, s') \<Rightarrow> (case calls0 s' qs of (as, s'') \<Rightarrow> (a # as, s'')))"

subsection \<open>The vocabulary of the specification\<close>

text \<open>
  A valid comparator is a strict weak ordering: irreflexive, transitive, and with a
  transitive incomparability relation. The last is stated in the form that proofs use:
  when \<open>x\<close> orders before \<open>y\<close>, every \<open>z\<close> has \<open>x\<close> before it or orders before \<open>y\<close>.
\<close>

definition strict_weak_order :: "'k Compare \<Rightarrow> bool" where
  "strict_weak_order cmp \<longleftrightarrow>
     (\<forall>x. \<not> cmp x x) \<and>
     (\<forall>x y z. cmp x y \<longrightarrow> cmp y z \<longrightarrow> cmp x z) \<and>
     (\<forall>x y z. cmp x y \<longrightarrow> cmp x z \<or> cmp z y)"

text \<open>Two keys are comparator-equal when neither orders before the other.\<close>

definition cmp_equal :: "'k Compare \<Rightarrow> 'k \<Rightarrow> 'k \<Rightarrow> bool" where
  "cmp_equal cmp a b \<longleftrightarrow> \<not> cmp a b \<and> \<not> cmp b a"

text \<open>
  The lower bound as the spec words it: the position of the first element that is not
  ordered before the key, and the end position (the length) when there is none.
\<close>

definition first_not_before :: "'k Compare \<Rightarrow> 'k list \<Rightarrow> 'k \<Rightarrow> nat" where
  "first_not_before cmp xs key = length (takeWhile (\<lambda>x. cmp x key) xs)"

text \<open>
  The invariant of a constructed set: the comparator is valid and no stored key is ordered
  before a key stored in front of it.
\<close>

definition sorted_set :: "'k frozen_set \<Rightarrow> bool" where
  "sorted_set s \<longleftrightarrow>
     strict_weak_order (m_compare s) \<and> sorted_wrt (\<lambda>a b. \<not> m_compare s b a) (m_keys s)"

text \<open>The middle element as the pivot, one selection rule among all.\<close>

definition middle :: "'k list \<Rightarrow> nat" where
  "middle xs = length xs div 2"

section \<open>Properties of the collaborators\<close>

subsection \<open>Strict weak orderings\<close>

lemma swo_irrefl: "strict_weak_order cmp \<Longrightarrow> \<not> cmp x x"
  by (simp add: strict_weak_order_def)

lemma swo_trans: "strict_weak_order cmp \<Longrightarrow> cmp x y \<Longrightarrow> cmp y z \<Longrightarrow> cmp x z"
  unfolding strict_weak_order_def by blast

lemma swo_asym: "strict_weak_order cmp \<Longrightarrow> cmp x y \<Longrightarrow> \<not> cmp y x"
  unfolding strict_weak_order_def by blast

lemma swo_cotrans: "strict_weak_order cmp \<Longrightarrow> cmp x y \<Longrightarrow> cmp x z \<or> cmp z y"
  unfolding strict_weak_order_def by blast

text \<open>
  The definition agrees with the usual one: irreflexive, transitive, and comparator
  equality is transitive.
\<close>

lemma strict_weak_order_iff:
  "strict_weak_order cmp \<longleftrightarrow>
     (\<forall>x. \<not> cmp x x) \<and>
     (\<forall>x y z. cmp x y \<longrightarrow> cmp y z \<longrightarrow> cmp x z) \<and>
     (\<forall>x y z. cmp_equal cmp x y \<longrightarrow> cmp_equal cmp y z \<longrightarrow> cmp_equal cmp x z)"
  unfolding strict_weak_order_def cmp_equal_def
proof (intro iffI conjI)
  assume a: "(\<forall>x. \<not> cmp x x) \<and> (\<forall>x y z. cmp x y \<longrightarrow> cmp y z \<longrightarrow> cmp x z) \<and>
    (\<forall>x y z. \<not> cmp x y \<and> \<not> cmp y x \<longrightarrow> \<not> cmp y z \<and> \<not> cmp z y \<longrightarrow> \<not> cmp x z \<and> \<not> cmp z x)"
  then show "\<forall>x. \<not> cmp x x" and "\<forall>x y z. cmp x y \<longrightarrow> cmp y z \<longrightarrow> cmp x z"
    by blast+
  show "\<forall>x y z. cmp x y \<longrightarrow> cmp x z \<or> cmp z y"
  proof (intro allI impI)
    fix x y z
    assume xy: "cmp x y"
    show "cmp x z \<or> cmp z y"
    proof (rule ccontr)
      assume "\<not> (cmp x z \<or> cmp z y)"
      then have nxz: "\<not> cmp x z" and nzy: "\<not> cmp z y"
        by simp_all
      from a xy nzy have nzx: "\<not> cmp z x"
        by blast
      from a xy nxz have nyz: "\<not> cmp y z"
        by blast
      from a nxz nzx nzy nyz have "\<not> cmp x y"
        by blast
      with xy show False
        by simp
    qed
  qed
next
  assume a: "(\<forall>x. \<not> cmp x x) \<and> (\<forall>x y z. cmp x y \<longrightarrow> cmp y z \<longrightarrow> cmp x z) \<and>
    (\<forall>x y z. cmp x y \<longrightarrow> cmp x z \<or> cmp z y)"
  then show "\<forall>x. \<not> cmp x x" and "\<forall>x y z. cmp x y \<longrightarrow> cmp y z \<longrightarrow> cmp x z"
    by blast+
  from a show "\<forall>x y z. \<not> cmp x y \<and> \<not> cmp y x \<longrightarrow> \<not> cmp y z \<and> \<not> cmp z y \<longrightarrow> \<not> cmp x z \<and> \<not> cmp z x"
    by blast
qed

subsection \<open>The sort engine\<close>

lemma mset_remove_nth:
  assumes "p < length xs"
  shows "add_mset (xs ! p) (mset (remove_nth p xs)) = mset xs"
proof -
  have "xs = take p xs @ xs ! p # drop (Suc p) xs"
    using assms by (rule id_take_nth_drop)
  then have "mset xs = mset (take p xs @ xs ! p # drop (Suc p) xs)"
    by simp
  then show ?thesis
    by (simp add: remove_nth_def)
qed

lemma mset_quicksort: "mset (quicksort pivot xs cmp) = mset xs"
proof (induction pivot xs cmp rule: quicksort.induct)
  case (1 pivot xs cmp)
  show ?case
  proof (cases "length xs \<le> 1")
    case True
    then have "quicksort pivot xs cmp = xs"
      by (subst quicksort.simps) simp
    then show ?thesis
      by simp
  next
    case False
    let ?p = "pivot xs mod length xs"
    from False have "0 < length xs"
      by arith
    then have p: "?p < length xs"
      by simp
    have "mset (quicksort pivot xs cmp) =
        add_mset (xs ! ?p)
          (mset (filter (\<lambda>x. cmp x (xs ! ?p)) (remove_nth ?p xs)) +
           mset (filter (\<lambda>x. \<not> cmp x (xs ! ?p)) (remove_nth ?p xs)))"
      using False "1.IH" by (subst quicksort.simps) simp
    also have "\<dots> = add_mset (xs ! ?p) (mset (remove_nth ?p xs))"
      by simp
    also have "\<dots> = mset xs"
      using p by (rule mset_remove_nth)
    finally show ?thesis .
  qed
qed

lemma set_quicksort: "set (quicksort pivot xs cmp) = set xs"
  using mset_quicksort [of pivot xs cmp] by (rule mset_eq_setD)

lemma length_quicksort: "length (quicksort pivot xs cmp) = length xs"
  using mset_quicksort [of pivot xs cmp] by (rule mset_eq_length)

lemma sorted_quicksort:
  "strict_weak_order cmp \<Longrightarrow> sorted_wrt (\<lambda>a b. \<not> cmp b a) (quicksort pivot xs cmp)"
proof (induction pivot xs cmp rule: quicksort.induct)
  case (1 pivot xs cmp)
  note swo = "1.prems"
  show ?case
  proof (cases "length xs \<le> 1")
    case True
    then have short: "xs = [] \<or> (\<exists>x. xs = [x])"
      by (cases xs) auto
    have "quicksort pivot xs cmp = xs"
      using True by (subst quicksort.simps) simp
    with short show ?thesis
      by auto
  next
    case False
    let ?v = "xs ! (pivot xs mod length xs)"
    let ?r = "remove_nth (pivot xs mod length xs) xs"
    have unfold: "quicksort pivot xs cmp =
        quicksort pivot (filter (\<lambda>x. cmp x ?v) ?r) cmp @
        ?v # quicksort pivot (filter (\<lambda>x. \<not> cmp x ?v) ?r) cmp"
      using False by (subst quicksort.simps) simp
    have left: "sorted_wrt (\<lambda>a b. \<not> cmp b a) (quicksort pivot (filter (\<lambda>x. cmp x ?v) ?r) cmp)"
      using False swo by (rule "1.IH"(1))
    have right: "sorted_wrt (\<lambda>a b. \<not> cmp b a) (quicksort pivot (filter (\<lambda>x. \<not> cmp x ?v) ?r) cmp)"
      using False swo by (rule "1.IH"(2))
    have below: "cmp a ?v" if "a \<in> set (quicksort pivot (filter (\<lambda>x. cmp x ?v) ?r) cmp)" for a
      using that by (simp add: set_quicksort)
    have above: "\<not> cmp b ?v" if "b \<in> set (quicksort pivot (filter (\<lambda>x. \<not> cmp x ?v) ?r) cmp)" for b
      using that by (simp add: set_quicksort)
    have cross: "\<not> cmp b a"
      if "a \<in> set (quicksort pivot (filter (\<lambda>x. cmp x ?v) ?r) cmp)"
        and "b \<in> set (quicksort pivot (filter (\<lambda>x. \<not> cmp x ?v) ?r) cmp)" for a b
      using swo_trans [OF swo, of b a ?v] below [OF that(1)] above [OF that(2)] by blast
    have pivot_low: "\<not> cmp ?v a" if "a \<in> set (quicksort pivot (filter (\<lambda>x. cmp x ?v) ?r) cmp)" for a
      using swo_asym [OF swo below [OF that]] .
    have "\<forall>b\<in>set (quicksort pivot (filter (\<lambda>x. \<not> cmp x ?v) ?r) cmp). \<not> cmp b ?v"
      using above by blast
    with right have tail: "sorted_wrt (\<lambda>a b. \<not> cmp b a)
        (?v # quicksort pivot (filter (\<lambda>x. \<not> cmp x ?v) ?r) cmp)"
      by (simp only: sorted_wrt.simps simp_thms)
    have between: "\<forall>a\<in>set (quicksort pivot (filter (\<lambda>x. cmp x ?v) ?r) cmp).
        \<forall>b\<in>set (?v # quicksort pivot (filter (\<lambda>x. \<not> cmp x ?v) ?r) cmp). \<not> cmp b a"
    proof (intro ballI)
      fix a b
      assume a: "a \<in> set (quicksort pivot (filter (\<lambda>x. cmp x ?v) ?r) cmp)"
        and "b \<in> set (?v # quicksort pivot (filter (\<lambda>x. \<not> cmp x ?v) ?r) cmp)"
      then have "b = ?v \<or> b \<in> set (quicksort pivot (filter (\<lambda>x. \<not> cmp x ?v) ?r) cmp)"
        by (simp only: set_simps insert_iff)
      then show "\<not> cmp b a"
        using cross [OF a] pivot_low [OF a] by blast
    qed
    show ?thesis
      unfolding unfold sorted_wrt_append using left tail between by blast
  qed
qed

subsection \<open>The search engine\<close>

text \<open>
  On any array, sorted or not, the halving search stops inside the range it was given, and
  a position it stops at before the end of the range holds an element that is not ordered
  before the key.
\<close>

lemma doit_range:
  "first \<le> doit xs key cmp first n \<and> doit xs key cmp first n \<le> first + n \<and>
   (doit xs key cmp first n < first + n \<longrightarrow> \<not> cmp (xs ! doit xs key cmp first n) key)"
proof (induction xs key cmp first n rule: doit.induct)
  case (1 xs key cmp first n)
  show ?case
  proof (cases "n = 0")
    case True
    then have "doit xs key cmp first n = first"
      by (subst doit.simps) simp
    with True show ?thesis
      by simp
  next
    case False
    show ?thesis
    proof (cases "cmp (xs ! (first + n div 2)) key")
      case True
      have eq: "doit xs key cmp first n =
          doit xs key cmp (first + n div 2 + 1) (n - (n div 2 + 1))"
        using False True by (subst doit.simps) simp
      have "first + n div 2 + 1 + (n - (n div 2 + 1)) = first + n"
        using False by simp
      with "1.IH"(1) [OF False True] show ?thesis
        unfolding eq by auto
    next
      case notless: False
      have eq: "doit xs key cmp first n = doit xs key cmp first (n div 2)"
        using False notless by (subst doit.simps) simp
      have "n div 2 < n"
        using False by simp
      with "1.IH"(2) [OF False notless] notless show ?thesis
        unfolding eq by (cases "doit xs key cmp first (n div 2) = first + n div 2") auto
    qed
  qed
qed

text \<open>
  When the elements ordered before the key are exactly those in front of position \<open>m\<close>,
  the search over a range that includes \<open>m\<close> stops at \<open>m\<close>.
\<close>

lemma doit_partitioned:
  "(\<forall>i<m. cmp (xs ! i) key) \<Longrightarrow>
   (\<forall>i. m \<le> i \<and> i < length xs \<longrightarrow> \<not> cmp (xs ! i) key) \<Longrightarrow>
   first \<le> m \<Longrightarrow> m \<le> first + n \<Longrightarrow> first + n \<le> length xs \<Longrightarrow>
   doit xs key cmp first n = m"
proof (induction xs key cmp first n rule: doit.induct)
  case (1 xs key cmp first n)
  note below = "1.prems"(1) and above = "1.prems"(2)
  show ?case
  proof (cases "n = 0")
    case True
    then have "doit xs key cmp first n = first"
      by (subst doit.simps) simp
    with True "1.prems"(3,4) show ?thesis
      by simp
  next
    case False
    then have mid: "first + n div 2 < first + n"
      by simp
    with "1.prems"(5) have inside: "first + n div 2 < length xs"
      by simp
    show ?thesis
    proof (cases "cmp (xs ! (first + n div 2)) key")
      case True
      have eq: "doit xs key cmp first n =
          doit xs key cmp (first + n div 2 + 1) (n - (n div 2 + 1))"
        using False True by (subst doit.simps) simp
      have "first + n div 2 < m"
        using True above inside by (meson not_le)
      then have lo: "first + n div 2 + 1 \<le> m"
        by simp
      have "first + n div 2 + 1 + (n - (n div 2 + 1)) = first + n"
        using False by simp
      with "1.prems"(4,5) have hi: "m \<le> first + n div 2 + 1 + (n - (n div 2 + 1))"
        and len: "first + n div 2 + 1 + (n - (n div 2 + 1)) \<le> length xs"
        by simp_all
      show ?thesis
        unfolding eq using False True below above lo hi len by (rule "1.IH"(1))
    next
      case notless: False
      have eq: "doit xs key cmp first n = doit xs key cmp first (n div 2)"
        using False notless by (subst doit.simps) simp
      have hi: "m \<le> first + n div 2"
        using notless below by (meson not_le)
      have len: "first + n div 2 \<le> length xs"
        using inside by simp
      show ?thesis
        unfolding eq using False notless below above "1.prems"(3) hi len by (rule "1.IH"(2))
    qed
  qed
qed

lemma takeWhile_below: "i < length (takeWhile P xs) \<Longrightarrow> P (xs ! i)"
  using nth_mem [of i "takeWhile P xs"] by (auto simp: takeWhile_nth dest: set_takeWhileD)

lemma first_not_before_le: "first_not_before cmp xs key \<le> length xs"
  by (simp add: first_not_before_def length_takeWhile_le)

lemma first_not_before_below:
  "i < first_not_before cmp xs key \<Longrightarrow> cmp (xs ! i) key"
  unfolding first_not_before_def by (rule takeWhile_below)

lemma first_not_before_at:
  "first_not_before cmp xs key < length xs \<Longrightarrow> \<not> cmp (xs ! first_not_before cmp xs key) key"
  unfolding first_not_before_def by (rule nth_length_takeWhile)

lemma first_not_before_above:
  assumes swo: "strict_weak_order cmp"
    and sorted: "sorted_wrt (\<lambda>a b. \<not> cmp b a) xs"
    and lo: "first_not_before cmp xs key \<le> i" and hi: "i < length xs"
  shows "\<not> cmp (xs ! i) key"
proof (cases "i = first_not_before cmp xs key")
  case True
  with hi show ?thesis
    using first_not_before_at [of cmp xs key] by simp
next
  case False
  with lo have less: "first_not_before cmp xs key < i"
    by simp
  with hi have "first_not_before cmp xs key < length xs"
    by simp
  then have at: "\<not> cmp (xs ! first_not_before cmp xs key) key"
    by (rule first_not_before_at)
  have "\<not> cmp (xs ! i) (xs ! first_not_before cmp xs key)"
    using sorted less hi by (simp add: sorted_wrt_iff_nth_less)
  with at show ?thesis
    using swo_cotrans [OF swo, of "xs ! i" key "xs ! first_not_before cmp xs key"] by blast
qed

lemma bits_lower_bound_sorted:
  assumes "strict_weak_order cmp" and "sorted_wrt (\<lambda>a b. \<not> cmp b a) xs"
  shows "bits_lower_bound xs key cmp = first_not_before cmp xs key"
  unfolding bits_lower_bound_def
proof (rule doit_partitioned)
  show "\<forall>i<first_not_before cmp xs key. cmp (xs ! i) key"
    by (simp add: first_not_before_below)
  show "\<forall>i. first_not_before cmp xs key \<le> i \<and> i < length xs \<longrightarrow> \<not> cmp (xs ! i) key"
    using first_not_before_above [OF assms] by blast
  show "0 \<le> first_not_before cmp xs key"
    by simp
  show "first_not_before cmp xs key \<le> 0 + length xs"
    by (simp add: first_not_before_le)
  show "0 + length xs \<le> length xs"
    by simp
qed

lemma bits_lower_bound_range:
  "bits_lower_bound xs key cmp \<le> length xs \<and>
   (bits_lower_bound xs key cmp < length xs \<longrightarrow> \<not> cmp (xs ! bits_lower_bound xs key cmp) key)"
  using doit_range [of 0 xs key cmp "length xs"] by (simp add: bits_lower_bound_def)

section \<open>Properties of the set\<close>

subsection \<open>Construction and lookup on a sorted array\<close>

lemma set_ctor_fields:
  "m_compare (set_ctor pivot keys cmp) = cmp"
  "m_keys (set_ctor pivot keys cmp) = quicksort pivot keys cmp"
  by (simp_all add: set_ctor_def)

lemma sorted_set_ctor: "strict_weak_order cmp \<Longrightarrow> sorted_set (set_ctor pivot keys cmp)"
  by (simp add: sorted_set_def set_ctor_fields sorted_quicksort)

lemma sorted_set_lower_bound:
  "sorted_set s \<Longrightarrow>
   bits_lower_bound (m_keys s) key (m_compare s) = first_not_before (m_compare s) (m_keys s) key"
  unfolding sorted_set_def by (simp add: bits_lower_bound_sorted)

lemma sorted_set_present:
  assumes "sorted_set s"
  shows "(\<exists>x\<in>set (m_keys s). cmp_equal (m_compare s) x key) \<longleftrightarrow>
    first_not_before (m_compare s) (m_keys s) key < length (m_keys s) \<and>
    \<not> m_compare s key (m_keys s ! first_not_before (m_compare s) (m_keys s) key)"
proof
  let ?p = "first_not_before (m_compare s) (m_keys s) key"
  from assms have swo: "strict_weak_order (m_compare s)"
    and sorted: "sorted_wrt (\<lambda>a b. \<not> m_compare s b a) (m_keys s)"
    by (simp_all add: sorted_set_def)
  {
    assume "\<exists>x\<in>set (m_keys s). cmp_equal (m_compare s) x key"
    then obtain j where j: "j < length (m_keys s)"
      and eq: "cmp_equal (m_compare s) (m_keys s ! j) key"
      by (auto simp: in_set_conv_nth)
    from eq have "\<not> m_compare s (m_keys s ! j) key" and nk: "\<not> m_compare s key (m_keys s ! j)"
      by (simp_all add: cmp_equal_def)
    then have le: "?p \<le> j"
      using first_not_before_below [of j "m_compare s" "m_keys s" key] by (meson not_le)
    with j have inside: "?p < length (m_keys s)"
      by simp
    have "\<not> m_compare s key (m_keys s ! ?p)"
    proof (cases "?p = j")
      case True
      with nk show ?thesis
        by simp
    next
      case False
      with le have "?p < j"
        by simp
      with sorted j have "\<not> m_compare s (m_keys s ! j) (m_keys s ! ?p)"
        by (simp add: sorted_wrt_iff_nth_less)
      with nk show ?thesis
        using swo_cotrans [OF swo, of key "m_keys s ! ?p" "m_keys s ! j"] by blast
    qed
    with inside show "?p < length (m_keys s) \<and> \<not> m_compare s key (m_keys s ! ?p)"
      by simp
  }
  {
    assume found: "?p < length (m_keys s) \<and> \<not> m_compare s key (m_keys s ! ?p)"
    then have "\<not> m_compare s (m_keys s ! ?p) key"
      using first_not_before_at [of "m_compare s" "m_keys s" key] by simp
    with found have "cmp_equal (m_compare s) (m_keys s ! ?p) key"
      by (simp add: cmp_equal_def)
    moreover from found have "m_keys s ! ?p \<in> set (m_keys s)"
      by simp
    ultimately show "\<exists>x\<in>set (m_keys s). cmp_equal (m_compare s) x key"
      by blast
  }
qed

lemma sorted_set_lower_bound_eq:
  assumes "sorted_set s"
  shows "set_lower_bound s key =
    (if \<exists>x\<in>set (m_keys s). cmp_equal (m_compare s) x key
     then first_not_before (m_compare s) (m_keys s) key else set_end s)"
  unfolding sorted_set_present [OF assms]
  using first_not_before_le [of "m_compare s" "m_keys s" key]
  by (auto simp: set_lower_bound_def set_end_def sorted_set_lower_bound [OF assms] Let_def)

lemma find_is_lower_bound: "set_find s key = set_lower_bound s key"
  by (simp add: set_find_def set_lower_bound_def Let_def)

subsection \<open>Construction from a braced list\<close>

text \<open>
  The primary template's constructor from a braced list aborts exactly when the list does
  not have \<open>N\<close> keys, whatever the slots past a shorter list hold.
\<close>

lemma set_ctor_list_checked:
  "set_ctor_list pivot N junk keys cmp =
    (if length keys = N then Inr (set_ctor pivot keys cmp)
     else Inl (Abort ''Inconsistent initializer_list size and type size argument''))"
proof (cases "length keys = N")
  case True
  then have "carray_init N junk keys = keys"
    by (auto simp: carray_init_def intro: nth_equalityI)
  with True show ?thesis
    by (simp add: set_ctor_list_def constexpr_assert_def)
next
  case False
  then show ?thesis
    by (simp add: set_ctor_list_def constexpr_assert_def)
qed

lemma construct_primary:
  "0 < N \<Longrightarrow> construct pivot N junk keys cmp =
    (if length keys = N then Inr (Primary (set_ctor pivot keys cmp))
     else Inl (Abort ''Inconsistent initializer_list size and type size argument''))"
  by (simp add: construct_def set_ctor_list_checked)

subsection \<open>The guarded lookups\<close>

text \<open>
  The guard of \<^verbatim>\<open>set::lower_bound\<close>: a position other than the end is handed out
  only when the key is comparator-equal to the element there. This needs no sorted array.
\<close>

lemma lower_bound_hit:
  assumes "set_lower_bound s key \<noteq> set_end s"
  shows "set_lower_bound s key < set_end s \<and>
    set_lower_bound s key = bits_lower_bound (m_keys s) key (m_compare s) \<and>
    cmp_equal (m_compare s) (m_keys s ! set_lower_bound s key) key"
proof -
  let ?w = "bits_lower_bound (m_keys s) key (m_compare s)"
  from assms have guard: "?w \<noteq> set_end s \<and> \<not> m_compare s key (m_keys s ! ?w)"
    and hit: "set_lower_bound s key = ?w"
    by (auto simp: set_lower_bound_def Let_def split: if_splits)
  from guard have inside: "?w < length (m_keys s)"
    using bits_lower_bound_range [of "m_keys s" key "m_compare s"] by (simp add: set_end_def)
  then have "\<not> m_compare s (m_keys s ! ?w) key"
    using bits_lower_bound_range [of "m_keys s" key "m_compare s"] by simp
  with guard inside hit show ?thesis
    by (simp add: cmp_equal_def set_end_def)
qed

lemma lower_bound_absent:
  assumes "\<forall>x\<in>set (m_keys s). \<not> cmp_equal (m_compare s) x key"
  shows "set_lower_bound s key = set_end s"
proof (rule ccontr)
  assume "set_lower_bound s key \<noteq> set_end s"
  then have "set_lower_bound s key < set_end s"
    and "cmp_equal (m_compare s) (m_keys s ! set_lower_bound s key) key"
    using lower_bound_hit [of s key] by blast+
  moreover from this(1) have "m_keys s ! set_lower_bound s key \<in> set (m_keys s)"
    by (simp add: set_end_def)
  ultimately show False
    using assms by blast
qed

lemma sorted_set_lower_bound_present:
  assumes "sorted_set s" and "\<exists>x\<in>set (m_keys s). cmp_equal (m_compare s) x key"
  shows "set_lower_bound s key < set_end s \<and>
    set_lower_bound s key = bits_lower_bound (m_keys s) key (m_compare s) \<and>
    cmp_equal (m_compare s) (m_keys s ! set_lower_bound s key) key"
proof (rule lower_bound_hit)
  from assms have "set_lower_bound s key = first_not_before (m_compare s) (m_keys s) key"
    by (simp add: sorted_set_lower_bound_eq)
  moreover from assms have "first_not_before (m_compare s) (m_keys s) key < length (m_keys s)"
    by (simp add: sorted_set_present)
  ultimately show "set_lower_bound s key \<noteq> set_end s"
    by (simp add: set_end_def)
qed

lemma sorted_set_count:
  assumes "sorted_set s"
  shows "set_count s key = (if \<exists>x\<in>set (m_keys s). cmp_equal (m_compare s) x key then 1 else 0)"
  unfolding sorted_set_present [OF assms]
  using first_not_before_le [of "m_compare s" "m_keys s" key]
  by (auto simp: set_count_def bits_binary_search_def sorted_set_lower_bound [OF assms] Let_def)

lemma upper_bound_by_lower_bound:
  "set_upper_bound s key =
    (if set_lower_bound s key = set_end s then set_end s else set_lower_bound s key + 1)"
  by (simp add: set_upper_bound_def set_lower_bound_def Let_def)

lemma equal_range_by_lower_bound:
  "set_equal_range s key =
    (if set_lower_bound s key = set_end s then (set_end s, set_end s)
     else (set_lower_bound s key, set_lower_bound s key + 1))"
  by (simp add: set_equal_range_def Let_def)

lemma stored_keys: "set (m_keys (set_ctor pivot keys cmp)) = set keys"
  by (simp add: set_ctor_fields set_quicksort)

lemma cmp_equal_refl: "strict_weak_order cmp \<Longrightarrow> cmp_equal cmp x x"
  by (simp add: cmp_equal_def swo_irrefl)

subsection \<open>Calls leave the object alone\<close>

lemma call_unchanged: "snd (call s q) = s"
  by (cases q) (simp_all add: call_def)

lemma calls_unchanged: "snd (calls s qs) = s"
proof (induction qs arbitrary: s)
  case Nil
  show ?case
    by simp
next
  case (Cons q qs)
  show ?case
    by (simp add: split_beta call_unchanged Cons.IH)
qed

lemma call0_unchanged: "snd (call0 s q) = s"
  by (cases q) (simp_all add: call0_def)

lemma calls0_unchanged: "snd (calls0 s qs) = s"
proof (induction qs arbitrary: s)
  case Nil
  show ?case
    by simp
next
  case (Cons q qs)
  show ?case
    by (simp add: split_beta call0_unchanged Cons.IH)
qed

section \<open>The claims\<close>

text \<open>The natural order of the natural numbers is a valid comparator.\<close>

lemma strict_weak_order_nat_less: "strict_weak_order ((<) :: nat \<Rightarrow> nat \<Rightarrow> bool)"
  by (auto simp: strict_weak_order_def)

subsection \<open>C1: the stored keys are sorted\<close>

text \<open>
  C1. For every input sequence of keys and every valid comparator, the key sequence stored
  by the constructor is sorted under the comparator: no element at a position \<open>i + 1\<close>
  compares less than the element at position \<open>i\<close>. The same holds of the object after any
  sequence \<open>qs\<close> of query operations.
\<close>

theorem C1_sorted_after_construction:
  assumes "strict_weak_order cmp"
    and "s = set_ctor pivot keys cmp"
    and "s' = snd (calls s qs)"
  shows "(\<forall>i. Suc i < set_N s \<longrightarrow> \<not> cmp (m_keys s ! Suc i) (m_keys s ! i)) \<and>
    (\<forall>i. Suc i < set_N s' \<longrightarrow> \<not> m_compare s' (m_keys s' ! Suc i) (m_keys s' ! i))"
proof -
  from assms(1,2) have "sorted_set s"
    by (simp add: sorted_set_ctor)
  then have sorted: "sorted_wrt (\<lambda>a b. \<not> m_compare s b a) (m_keys s)"
    by (simp add: sorted_set_def)
  have adjacent: "\<not> m_compare s (m_keys s ! Suc i) (m_keys s ! i)" if "Suc i < set_N s" for i
    using sorted that by (simp add: sorted_wrt_iff_nth_less set_N_def)
  have same: "s' = s"
    using assms(3) by (simp add: calls_unchanged)
  have "m_compare s = cmp"
    using assms(2) by (simp add: set_ctor_fields)
  with adjacent same show ?thesis
    by simp
qed

text \<open>
  The set of \<open>5, 3, 1, 4, 2\<close> under the natural order stores \<open>1, 2, 3, 4, 5\<close>, before and
  after two queries.
\<close>

theorem C1_sorted_after_construction_witness:
  "m_keys (set_ctor middle [5, 3, 1, 4, 2 :: nat] (<)) = [1, 2, 3, 4, 5] \<and>
   \<not> m_keys (set_ctor middle [5, 3, 1, 4, 2 :: nat] (<)) ! Suc 2
       < m_keys (set_ctor middle [5, 3, 1, 4, 2 :: nat] (<)) ! 2 \<and>
   \<not> m_keys (snd (calls (set_ctor middle [5, 3, 1, 4, 2 :: nat] (<)) [Find 3, Count 4])) ! Suc 2
       < m_keys (snd (calls (set_ctor middle [5, 3, 1, 4, 2 :: nat] (<)) [Find 3, Count 4])) ! 2"
proof -
  have stored: "m_keys (set_ctor middle [5, 3, 1, 4, 2 :: nat] (<)) = [1, 2, 3, 4, 5]"
    by code_simp
  then have size: "Suc 2 < set_N (set_ctor middle [5, 3, 1, 4, 2 :: nat] (<))"
    by (simp add: set_N_def)
  have after: "Suc 2 < set_N (snd (calls (set_ctor middle [5, 3, 1, 4, 2 :: nat] (<)) [Find 3, Count 4]))"
    unfolding calls_unchanged by (rule size)
  have order: "m_compare (snd (calls (set_ctor middle [5, 3, 1, 4, 2 :: nat] (<)) [Find 3, Count 4])) = (<)"
    unfolding calls_unchanged by (simp add: set_ctor_fields)
  note sorted = C1_sorted_after_construction [OF strict_weak_order_nat_less refl refl,
      of middle "[5, 3, 1, 4, 2]" "[Find 3, Count 4]"]
  from sorted size have first: "\<not> m_keys (set_ctor middle [5, 3, 1, 4, 2 :: nat] (<)) ! Suc 2
      < m_keys (set_ctor middle [5, 3, 1, 4, 2 :: nat] (<)) ! 2"
    by blast
  from sorted after have "\<not> m_compare (snd (calls (set_ctor middle [5, 3, 1, 4, 2 :: nat] (<)) [Find 3, Count 4]))
      (m_keys (snd (calls (set_ctor middle [5, 3, 1, 4, 2 :: nat] (<)) [Find 3, Count 4])) ! Suc 2)
      (m_keys (snd (calls (set_ctor middle [5, 3, 1, 4, 2 :: nat] (<)) [Find 3, Count 4])) ! 2)"
    by blast
  then have second: "\<not> m_keys (snd (calls (set_ctor middle [5, 3, 1, 4, 2 :: nat] (<)) [Find 3, Count 4])) ! Suc 2
      < m_keys (snd (calls (set_ctor middle [5, 3, 1, 4, 2 :: nat] (<)) [Find 3, Count 4])) ! 2"
    unfolding order .
  from stored first second show ?thesis
    by (intro conjI)
qed

subsection \<open>C2: what \<^verbatim>\<open>lower_bound\<close> returns\<close>

text \<open>
  C2, as stated, says that \<^verbatim>\<open>lower_bound\<close> returns the position of the first stored
  element not ordered before the key. It does not: in the set of \<open>10, 20, 30\<close> the first
  element not ordered before \<open>5\<close> is at the begin position, and the first not ordered
  before \<open>15\<close> is at position \<open>1\<close>, while \<^verbatim>\<open>lower_bound\<close> returns the end position
  \<open>3\<close> for both keys.
\<close>

theorem C2_lower_bound_counterexample:
  "m_keys (set_ctor middle [10, 20, 30 :: nat] (<)) = [10, 20, 30] \<and>
   first_not_before (<) (m_keys (set_ctor middle [10, 20, 30 :: nat] (<))) 5
     = set_begin (set_ctor middle [10, 20, 30 :: nat] (<)) \<and>
   set_lower_bound (set_ctor middle [10, 20, 30 :: nat] (<)) 5
     = set_end (set_ctor middle [10, 20, 30 :: nat] (<)) \<and>
   set_lower_bound (set_ctor middle [10, 20, 30 :: nat] (<)) 5
     \<noteq> set_begin (set_ctor middle [10, 20, 30 :: nat] (<)) \<and>
   first_not_before (<) (m_keys (set_ctor middle [10, 20, 30 :: nat] (<))) 15 = 1 \<and>
   set_lower_bound (set_ctor middle [10, 20, 30 :: nat] (<)) 15 = 3"
  by code_simp

text \<open>
  C2, amended. For every set constructed from at least one key under a valid comparator
  and every key, \<^verbatim>\<open>lower_bound\<close> returns the position of the first stored element not
  ordered before the key when that element is comparator-equal to the key, and the end
  position otherwise. In particular it returns the end position, which is not the begin
  position, for a key that compares less than every stored key, and the end position for
  a key that compares greater than every stored key.
\<close>

theorem C2_lower_bound_amended:
  assumes "strict_weak_order cmp"
    and "keys \<noteq> []"
    and "s = set_ctor pivot keys cmp"
  shows "set_lower_bound s key =
      (if first_not_before cmp (m_keys s) key < set_N s \<and>
          cmp_equal cmp (m_keys s ! first_not_before cmp (m_keys s) key) key
       then first_not_before cmp (m_keys s) key else set_end s) \<and>
    ((\<forall>x\<in>set (m_keys s). cmp key x) \<longrightarrow>
      set_lower_bound s key = set_end s \<and> set_end s \<noteq> set_begin s) \<and>
    ((\<forall>x\<in>set (m_keys s). cmp x key) \<longrightarrow> set_lower_bound s key = set_end s)"
proof -
  let ?p = "first_not_before cmp (m_keys s) key"
  from assms(1,3) have inv: "sorted_set s" and order: "m_compare s = cmp"
    by (simp_all add: sorted_set_ctor set_ctor_fields)
  have "(\<exists>x\<in>set (m_keys s). cmp_equal cmp x key) \<longleftrightarrow>
      ?p < set_N s \<and> cmp_equal cmp (m_keys s ! ?p) key"
    using sorted_set_present [OF inv, of key] first_not_before_at [of cmp "m_keys s" key]
    by (auto simp: order set_N_def cmp_equal_def)
  then have first: "set_lower_bound s key =
      (if ?p < set_N s \<and> cmp_equal cmp (m_keys s ! ?p) key then ?p else set_end s)"
    using sorted_set_lower_bound_eq [OF inv, of key] by (simp add: order)
  have "length (m_keys s) = length keys"
    using assms(3) by (simp add: set_ctor_fields length_quicksort)
  with assms(2) have nonempty: "set_end s \<noteq> set_begin s"
    by (simp add: set_end_def set_begin_def)
  have below: "set_lower_bound s key = set_end s" if "\<forall>x\<in>set (m_keys s). cmp key x"
  proof (rule lower_bound_absent)
    from that show "\<forall>x\<in>set (m_keys s). \<not> cmp_equal (m_compare s) x key"
      by (simp add: order cmp_equal_def)
  qed
  have above: "set_lower_bound s key = set_end s" if "\<forall>x\<in>set (m_keys s). cmp x key"
  proof (rule lower_bound_absent)
    from that show "\<forall>x\<in>set (m_keys s). \<not> cmp_equal (m_compare s) x key"
      by (simp add: order cmp_equal_def)
  qed
  from first nonempty below above show ?thesis
    by blast
qed

text \<open>In the set of \<open>10, 20, 30\<close>: a stored key, a key below all and a key above all.\<close>

theorem C2_lower_bound_amended_witness:
  "set_lower_bound (set_ctor middle [10, 20, 30 :: nat] (<)) 20 = 1 \<and>
   set_lower_bound (set_ctor middle [10, 20, 30 :: nat] (<)) 5 = 3 \<and>
   set_lower_bound (set_ctor middle [10, 20, 30 :: nat] (<)) 35 = 3"
proof -
  note amended = C2_lower_bound_amended [OF strict_weak_order_nat_less _ refl,
      of "[10, 20, 30]" middle]
  have stored: "m_keys (set_ctor middle [10, 20, 30 :: nat] (<)) = [10, 20, 30]"
    by code_simp
  have "first_not_before (<) (m_keys (set_ctor middle [10, 20, 30 :: nat] (<))) 20 = 1"
    by code_simp
  moreover have "cmp_equal (<) (m_keys (set_ctor middle [10, 20, 30 :: nat] (<)) ! 1) 20"
    by code_simp
  moreover have "set_N (set_ctor middle [10, 20, 30 :: nat] (<)) = 3"
    by code_simp
  ultimately have present: "set_lower_bound (set_ctor middle [10, 20, 30 :: nat] (<)) 20 = 1"
    using amended [of 20] by simp
  have "\<forall>x\<in>set (m_keys (set_ctor middle [10, 20, 30 :: nat] (<))). 5 < x"
    unfolding stored by simp
  then have below: "set_lower_bound (set_ctor middle [10, 20, 30 :: nat] (<)) 5 = 3"
    using amended [of 5] stored by (simp add: set_end_def)
  have "\<forall>x\<in>set (m_keys (set_ctor middle [10, 20, 30 :: nat] (<))). x < 35"
    unfolding stored by simp
  then have above: "set_lower_bound (set_ctor middle [10, 20, 30 :: nat] (<)) 35 = 3"
    using amended [of 35] stored by (simp add: set_end_def)
  from present below above show ?thesis
    by (intro conjI)
qed

subsection \<open>C3: \<^verbatim>\<open>count\<close> is zero or one\<close>

text \<open>
  C3. For every set constructed under a valid comparator and every key, \<^verbatim>\<open>count\<close>
  returns \<open>1\<close> if some stored element is comparator-equal to the key and \<open>0\<close> otherwise;
  for a key of the input it returns \<open>1\<close>, however many copies of it the input holds.
\<close>

theorem C3_count:
  assumes "strict_weak_order cmp"
    and "s = set_ctor pivot keys cmp"
  shows "set_count s key = (if \<exists>x\<in>set (m_keys s). cmp_equal cmp x key then 1 else 0) \<and>
    (key \<in> set keys \<longrightarrow> set_count s key = 1)"
proof -
  from assms have inv: "sorted_set s" and order: "m_compare s = cmp"
    by (simp_all add: sorted_set_ctor set_ctor_fields)
  have general: "set_count s key = (if \<exists>x\<in>set (m_keys s). cmp_equal cmp x key then 1 else 0)"
    using sorted_set_count [OF inv, of key] by (simp add: order)
  have "set_count s key = 1" if "key \<in> set keys"
  proof -
    from that have "key \<in> set (m_keys s)"
      by (simp add: assms(2) stored_keys)
    then have "\<exists>x\<in>set (m_keys s). cmp_equal cmp x key"
      using cmp_equal_refl [OF assms(1), of key] by blast
    with general show ?thesis
      by simp
  qed
  with general show ?thesis
    by blast
qed

text \<open>The set of \<open>2, 2, 1\<close> stores two copies of \<open>2\<close> and counts one.\<close>

theorem C3_count_witness:
  "m_keys (set_ctor middle [2, 2, 1 :: nat] (<)) = [1, 2, 2] \<and>
   set_count (set_ctor middle [2, 2, 1 :: nat] (<)) 2 = 1 \<and>
   set_count (set_ctor middle [2, 2, 1 :: nat] (<)) 3 = 0"
proof -
  note count = C3_count [OF strict_weak_order_nat_less refl, of middle "[2, 2, 1]"]
  have stored: "m_keys (set_ctor middle [2, 2, 1 :: nat] (<)) = [1, 2, 2]"
    by code_simp
  have present: "set_count (set_ctor middle [2, 2, 1 :: nat] (<)) 2 = 1"
    using count [of 2] by simp
  have "\<not> (\<exists>x\<in>set (m_keys (set_ctor middle [2, 2, 1 :: nat] (<))). cmp_equal (<) x 3)"
    unfolding stored by (simp add: cmp_equal_def)
  then have absent: "set_count (set_ctor middle [2, 2, 1 :: nat] (<)) 3 = 0"
    using count [of 3] by simp
  from stored present absent show ?thesis
    by (intro conjI)
qed

subsection \<open>C4: what \<^verbatim>\<open>find\<close> returns\<close>

text \<open>
  C4. For every set constructed under a valid comparator and every key, \<^verbatim>\<open>find\<close>
  returns a position whose element is comparator-equal to the key when there is such a
  stored element, and the end position when there is none; for a key of the input it
  returns such a position and \<^verbatim>\<open>count\<close> returns \<open>1\<close>.
\<close>

theorem C4_find:
  assumes "strict_weak_order cmp"
    and "s = set_ctor pivot keys cmp"
  shows "((\<exists>x\<in>set (m_keys s). cmp_equal cmp x key) \<longrightarrow>
      set_find s key < set_end s \<and> cmp_equal cmp (m_keys s ! set_find s key) key) \<and>
    ((\<forall>x\<in>set (m_keys s). \<not> cmp_equal cmp x key) \<longrightarrow> set_find s key = set_end s) \<and>
    (key \<in> set keys \<longrightarrow>
      set_find s key < set_end s \<and> cmp_equal cmp (m_keys s ! set_find s key) key \<and>
      set_count s key = 1)"
proof -
  from assms have inv: "sorted_set s" and order: "m_compare s = cmp"
    by (simp_all add: sorted_set_ctor set_ctor_fields)
  have present: "set_find s key < set_end s \<and> cmp_equal cmp (m_keys s ! set_find s key) key"
    if "\<exists>x\<in>set (m_keys s). cmp_equal cmp x key"
    using sorted_set_lower_bound_present [OF inv, of key] that
    unfolding order find_is_lower_bound by blast
  have absent: "set_find s key = set_end s" if "\<forall>x\<in>set (m_keys s). \<not> cmp_equal cmp x key"
    using lower_bound_absent [of s key] that by (simp add: order find_is_lower_bound)
  have input: "set_find s key < set_end s \<and> cmp_equal cmp (m_keys s ! set_find s key) key \<and>
      set_count s key = 1" if "key \<in> set keys"
  proof -
    from that have "key \<in> set (m_keys s)"
      by (simp add: assms(2) stored_keys)
    then have stored: "\<exists>x\<in>set (m_keys s). cmp_equal cmp x key"
      using cmp_equal_refl [OF assms(1), of key] by blast
    then have "set_count s key = 1"
      using sorted_set_count [OF inv, of key] by (simp add: order)
    with present [OF stored] show ?thesis
      by simp
  qed
  from present absent input show ?thesis
    by blast
qed

text \<open>
  In the set of \<open>5, 3, 1, 4, 2\<close>: \<open>3\<close> is found at position \<open>2\<close>, \<open>6\<close> is not found.
\<close>

theorem C4_find_witness:
  "set_find (set_ctor middle [5, 3, 1, 4, 2 :: nat] (<)) 3
     < set_end (set_ctor middle [5, 3, 1, 4, 2 :: nat] (<)) \<and>
   cmp_equal (<) (m_keys (set_ctor middle [5, 3, 1, 4, 2 :: nat] (<))
     ! set_find (set_ctor middle [5, 3, 1, 4, 2 :: nat] (<)) 3) 3 \<and>
   set_count (set_ctor middle [5, 3, 1, 4, 2 :: nat] (<)) 3 = 1 \<and>
   set_find (set_ctor middle [5, 3, 1, 4, 2 :: nat] (<)) 6
     = set_end (set_ctor middle [5, 3, 1, 4, 2 :: nat] (<)) \<and>
   set_find (set_ctor middle [5, 3, 1, 4, 2 :: nat] (<)) 3 = 2 \<and>
   set_end (set_ctor middle [5, 3, 1, 4, 2 :: nat] (<)) = 5"
proof -
  note find = C4_find [OF strict_weak_order_nat_less refl, of middle "[5, 3, 1, 4, 2]"]
  have stored: "m_keys (set_ctor middle [5, 3, 1, 4, 2 :: nat] (<)) = [1, 2, 3, 4, 5]"
    by code_simp
  have "(3 :: nat) \<in> set [5, 3, 1, 4, 2]"
    by simp
  with find [of 3] have hit: "set_find (set_ctor middle [5, 3, 1, 4, 2 :: nat] (<)) 3
        < set_end (set_ctor middle [5, 3, 1, 4, 2 :: nat] (<)) \<and>
      cmp_equal (<) (m_keys (set_ctor middle [5, 3, 1, 4, 2 :: nat] (<))
        ! set_find (set_ctor middle [5, 3, 1, 4, 2 :: nat] (<)) 3) 3 \<and>
      set_count (set_ctor middle [5, 3, 1, 4, 2 :: nat] (<)) 3 = 1"
    by blast
  have "\<forall>x\<in>set (m_keys (set_ctor middle [5, 3, 1, 4, 2 :: nat] (<))). \<not> cmp_equal (<) x 6"
    unfolding stored by (simp add: cmp_equal_def)
  with find [of 6] have miss: "set_find (set_ctor middle [5, 3, 1, 4, 2 :: nat] (<)) 6
      = set_end (set_ctor middle [5, 3, 1, 4, 2 :: nat] (<))"
    by blast
  have place: "set_find (set_ctor middle [5, 3, 1, 4, 2 :: nat] (<)) 3 = 2"
    by code_simp
  have last: "set_end (set_ctor middle [5, 3, 1, 4, 2 :: nat] (<)) = 5"
    by code_simp
  from hit miss place last show ?thesis
    by blast
qed

subsection \<open>C5: \<^verbatim>\<open>equal_range\<close> and \<^verbatim>\<open>upper_bound\<close>\<close>

text \<open>
  C5. For every set constructed under a valid comparator and every key: when no stored
  element is comparator-equal to the key, \<^verbatim>\<open>equal_range\<close> returns the pair of end
  positions and \<^verbatim>\<open>upper_bound\<close> the end position; when one is, \<^verbatim>\<open>equal_range\<close>
  returns the found position and the position after it, and \<^verbatim>\<open>upper_bound\<close> the
  position after the found one. The window never spans more than one position.
\<close>

theorem C5_equal_range_upper_bound:
  assumes "strict_weak_order cmp"
    and "s = set_ctor pivot keys cmp"
  shows "((\<forall>x\<in>set (m_keys s). \<not> cmp_equal cmp x key) \<longrightarrow>
      set_equal_range s key = (set_end s, set_end s) \<and> set_upper_bound s key = set_end s) \<and>
    ((\<exists>x\<in>set (m_keys s). cmp_equal cmp x key) \<longrightarrow>
      set_find s key < set_end s \<and>
      cmp_equal cmp (m_keys s ! set_find s key) key \<and>
      set_equal_range s key = (set_find s key, set_find s key + 1) \<and>
      set_upper_bound s key = set_find s key + 1) \<and>
    snd (set_equal_range s key) - fst (set_equal_range s key) \<le> 1"
proof -
  from assms have inv: "sorted_set s" and order: "m_compare s = cmp"
    by (simp_all add: sorted_set_ctor set_ctor_fields)
  have absent: "set_equal_range s key = (set_end s, set_end s) \<and> set_upper_bound s key = set_end s"
    if "\<forall>x\<in>set (m_keys s). \<not> cmp_equal cmp x key"
  proof -
    from that have "set_lower_bound s key = set_end s"
      using lower_bound_absent [of s key] by (simp add: order)
    then show ?thesis
      by (simp add: equal_range_by_lower_bound upper_bound_by_lower_bound)
  qed
  have present: "set_find s key < set_end s \<and>
      cmp_equal cmp (m_keys s ! set_find s key) key \<and>
      set_equal_range s key = (set_find s key, set_find s key + 1) \<and>
      set_upper_bound s key = set_find s key + 1"
    if "\<exists>x\<in>set (m_keys s). cmp_equal cmp x key"
  proof -
    from that have found: "set_lower_bound s key < set_end s"
      and equal: "cmp_equal cmp (m_keys s ! set_lower_bound s key) key"
      using sorted_set_lower_bound_present [OF inv, of key] unfolding order by blast+
    from found have "set_lower_bound s key \<noteq> set_end s"
      by simp
    with found equal show ?thesis
      by (simp add: find_is_lower_bound equal_range_by_lower_bound upper_bound_by_lower_bound)
  qed
  have "snd (set_equal_range s key) - fst (set_equal_range s key) \<le> 1"
    by (simp add: equal_range_by_lower_bound)
  with absent present show ?thesis
    by blast
qed

text \<open>
  In the set of \<open>2, 2, 1\<close>, which stores \<open>1, 2, 2\<close>, the window of \<open>2\<close> is the one
  position \<open>1\<close>; the window of the absent key \<open>0\<close> is empty.
\<close>

theorem C5_equal_range_upper_bound_witness:
  "set_equal_range (set_ctor middle [2, 2, 1 :: nat] (<)) 2
     = (set_find (set_ctor middle [2, 2, 1 :: nat] (<)) 2,
        set_find (set_ctor middle [2, 2, 1 :: nat] (<)) 2 + 1) \<and>
   set_upper_bound (set_ctor middle [2, 2, 1 :: nat] (<)) 2
     = set_find (set_ctor middle [2, 2, 1 :: nat] (<)) 2 + 1 \<and>
   set_equal_range (set_ctor middle [2, 2, 1 :: nat] (<)) 0
     = (set_end (set_ctor middle [2, 2, 1 :: nat] (<)),
        set_end (set_ctor middle [2, 2, 1 :: nat] (<))) \<and>
   set_upper_bound (set_ctor middle [2, 2, 1 :: nat] (<)) 0
     = set_end (set_ctor middle [2, 2, 1 :: nat] (<)) \<and>
   m_keys (set_ctor middle [2, 2, 1 :: nat] (<)) = [1, 2, 2] \<and>
   set_equal_range (set_ctor middle [2, 2, 1 :: nat] (<)) 2 = (1, 2)"
proof -
  note range = C5_equal_range_upper_bound [OF strict_weak_order_nat_less refl,
      of middle "[2, 2, 1]"]
  have stored: "m_keys (set_ctor middle [2, 2, 1 :: nat] (<)) = [1, 2, 2]"
    by code_simp
  have "\<exists>x\<in>set (m_keys (set_ctor middle [2, 2, 1 :: nat] (<))). cmp_equal (<) x 2"
    unfolding stored by (simp add: cmp_equal_def)
  with range [of 2] have present:
    "set_equal_range (set_ctor middle [2, 2, 1 :: nat] (<)) 2
       = (set_find (set_ctor middle [2, 2, 1 :: nat] (<)) 2,
          set_find (set_ctor middle [2, 2, 1 :: nat] (<)) 2 + 1) \<and>
     set_upper_bound (set_ctor middle [2, 2, 1 :: nat] (<)) 2
       = set_find (set_ctor middle [2, 2, 1 :: nat] (<)) 2 + 1"
    by blast
  have "\<forall>x\<in>set (m_keys (set_ctor middle [2, 2, 1 :: nat] (<))). \<not> cmp_equal (<) x 0"
    unfolding stored by (simp add: cmp_equal_def)
  with range [of 0] have absent:
    "set_equal_range (set_ctor middle [2, 2, 1 :: nat] (<)) 0
       = (set_end (set_ctor middle [2, 2, 1 :: nat] (<)),
          set_end (set_ctor middle [2, 2, 1 :: nat] (<))) \<and>
     set_upper_bound (set_ctor middle [2, 2, 1 :: nat] (<)) 0
       = set_end (set_ctor middle [2, 2, 1 :: nat] (<))"
    by blast
  have window: "set_equal_range (set_ctor middle [2, 2, 1 :: nat] (<)) 2 = (1, 2)"
    by code_simp
  from present absent stored window show ?thesis
    by blast
qed

subsection \<open>C6: the stored keys are the input keys, put in order\<close>

text \<open>
  C6. For every input sequence of \<open>N\<close> keys, the storage produced by the constructor holds
  the same \<open>N\<close> keys as the input, as a multiset: no key is added, dropped or replaced,
  whatever the comparator. Under every valid comparator the keys are rearranged into the
  comparator's order: no stored key is ordered before a key stored anywhere in front of it.
\<close>

theorem C6_storage_is_permutation:
  "mset (m_keys (set_ctor pivot keys cmp)) = mset keys \<and>
   set_N (set_ctor pivot keys cmp) = length keys \<and>
   (strict_weak_order cmp \<longrightarrow>
     sorted_wrt (\<lambda>a b. \<not> cmp b a) (m_keys (set_ctor pivot keys cmp)))"
proof -
  have same: "mset (m_keys (set_ctor pivot keys cmp)) = mset keys"
    by (simp add: set_ctor_fields mset_quicksort)
  have size: "set_N (set_ctor pivot keys cmp) = length keys"
    by (simp add: set_ctor_fields set_N_def length_quicksort)
  have order: "sorted_wrt (\<lambda>a b. \<not> cmp b a) (m_keys (set_ctor pivot keys cmp))"
    if "strict_weak_order cmp"
    using sorted_set_ctor [OF that, of pivot keys] by (simp add: sorted_set_def set_ctor_fields)
  from same size order show ?thesis
    by blast
qed

text \<open>
  The set of \<open>2, 2, 1\<close> stores \<open>1, 2, 2\<close>: both copies of \<open>2\<close> are kept, in order.
\<close>

theorem C6_storage_is_permutation_witness:
  "m_keys (set_ctor middle [2, 2, 1 :: nat] (<)) = [1, 2, 2] \<and>
   mset (m_keys (set_ctor middle [2, 2, 1 :: nat] (<))) = mset [2, 2, 1] \<and>
   set_N (set_ctor middle [2, 2, 1 :: nat] (<)) = length [2, 2, 1 :: nat] \<and>
   sorted_wrt (\<lambda>a b. \<not> b < a) (m_keys (set_ctor middle [2, 2, 1 :: nat] (<)))"
proof -
  note permuted = C6_storage_is_permutation [of middle "[2, 2, 1 :: nat]" "(<)"]
  have stored: "m_keys (set_ctor middle [2, 2, 1 :: nat] (<)) = [1, 2, 2]"
    by code_simp
  from permuted strict_weak_order_nat_less
  have "mset (m_keys (set_ctor middle [2, 2, 1 :: nat] (<))) = mset [2, 2, 1] \<and>
      set_N (set_ctor middle [2, 2, 1 :: nat] (<)) = length [2, 2, 1 :: nat] \<and>
      sorted_wrt (\<lambda>a b. \<not> b < a) (m_keys (set_ctor middle [2, 2, 1 :: nat] (<)))"
    by blast
  with stored show ?thesis
    by blast
qed

subsection \<open>C7: a braced list of the wrong size\<close>

text \<open>
  C7 says that construction from a braced list whose size differs from the declared
  capacity always aborts. The primary template does abort (\<open>construct_primary\<close>), but
  the specialization for \<open>N = 0\<close> has no such check: declared with capacity \<open>0\<close> and
  given the two keys \<open>1, 2\<close> it produces a set, where the same list at capacity \<open>1\<close>
  aborts.
\<close>

theorem C7_specialization_takes_any_list:
  "construct pivot 0 junk [1, 2 :: int] cmp = Inr (Specialization \<lparr>m_compare0 = cmp\<rparr>) \<and>
   construct pivot 1 junk [1, 2 :: int] cmp
     = Inl (Abort ''Inconsistent initializer_list size and type size argument'')"
  by (simp add: construct_primary) (simp add: construct_def set0_ctor_list_def)

subsection \<open>C8: the specialization for no keys\<close>

text \<open>
  C8. For the specialization at \<open>N = 0\<close> and every key: \<^verbatim>\<open>empty()\<close> is true,
  \<^verbatim>\<open>size()\<close> and \<^verbatim>\<open>max_size()\<close> are \<open>0\<close>, \<^verbatim>\<open>count\<close> is \<open>0\<close>, \<^verbatim>\<open>find\<close>,
  \<^verbatim>\<open>lower_bound\<close> and \<^verbatim>\<open>upper_bound\<close> return the end position, \<^verbatim>\<open>equal_range\<close>
  returns the pair of end positions, and \<^verbatim>\<open>begin()\<close> equals \<^verbatim>\<open>end()\<close>. None of the
  answers depends on the comparator: they stay the same when the comparator \<open>c\<close>, which
  may be any function at all, is put in its place.
\<close>

theorem C8_empty_specialization:
  "set0_empty s \<and> set0_size s = 0 \<and> set0_max_size s = 0 \<and> set0_count s key = 0 \<and>
   set0_find s key = set0_end s \<and> set0_lower_bound s key = set0_end s \<and>
   set0_upper_bound s key = set0_end s \<and>
   set0_equal_range s key = (set0_end s, set0_end s) \<and> set0_begin s = set0_end s \<and>
   set0_empty (s\<lparr>m_compare0 := c\<rparr>) = set0_empty s \<and>
   set0_size (s\<lparr>m_compare0 := c\<rparr>) = set0_size s \<and>
   set0_max_size (s\<lparr>m_compare0 := c\<rparr>) = set0_max_size s \<and>
   set0_count (s\<lparr>m_compare0 := c\<rparr>) key = set0_count s key \<and>
   set0_find (s\<lparr>m_compare0 := c\<rparr>) key = set0_find s key \<and>
   set0_lower_bound (s\<lparr>m_compare0 := c\<rparr>) key = set0_lower_bound s key \<and>
   set0_upper_bound (s\<lparr>m_compare0 := c\<rparr>) key = set0_upper_bound s key \<and>
   set0_equal_range (s\<lparr>m_compare0 := c\<rparr>) key = set0_equal_range s key \<and>
   set0_begin (s\<lparr>m_compare0 := c\<rparr>) = set0_begin s \<and>
   set0_end (s\<lparr>m_compare0 := c\<rparr>) = set0_end s"
  by (simp add: set0_empty_def set0_size_def set0_max_size_def set0_count_def set0_find_def
      set0_lower_bound_def set0_upper_bound_def set0_equal_range_def set0_begin_def set0_end_def)

subsection \<open>C9: \<^verbatim>\<open>find\<close> and \<^verbatim>\<open>lower_bound\<close> agree\<close>

text \<open>
  C9. For every set object, whatever its keys and comparator, and every key,
  \<^verbatim>\<open>find\<close> and \<^verbatim>\<open>lower_bound\<close> return the same position; when no stored element is
  comparator-equal to the key, both return the end position, so \<^verbatim>\<open>lower_bound\<close>
  never returns an insertion position.
\<close>

theorem C9_find_is_lower_bound:
  "set_find s key = set_lower_bound s key \<and>
   ((\<forall>x\<in>set (m_keys s). \<not> cmp_equal (m_compare s) x key) \<longrightarrow>
     set_lower_bound s key = set_end s \<and> set_find s key = set_end s)"
  using lower_bound_absent [of s key] by (simp add: find_is_lower_bound)

text \<open>In the set of \<open>10, 20, 30\<close> the absent key \<open>15\<close> gets the end position from both.\<close>

theorem C9_find_is_lower_bound_witness:
  "set_find (set_ctor middle [10, 20, 30 :: nat] (<)) 15
     = set_lower_bound (set_ctor middle [10, 20, 30 :: nat] (<)) 15 \<and>
   set_lower_bound (set_ctor middle [10, 20, 30 :: nat] (<)) 15
     = set_end (set_ctor middle [10, 20, 30 :: nat] (<)) \<and>
   set_find (set_ctor middle [10, 20, 30 :: nat] (<)) 15
     = set_end (set_ctor middle [10, 20, 30 :: nat] (<)) \<and>
   set_end (set_ctor middle [10, 20, 30 :: nat] (<)) = 3"
proof -
  have stored: "m_keys (set_ctor middle [10, 20, 30 :: nat] (<)) = [10, 20, 30]"
    by code_simp
  have order: "m_compare (set_ctor middle [10, 20, 30 :: nat] (<)) = (<)"
    by (simp add: set_ctor_fields)
  have "\<forall>x\<in>set (m_keys (set_ctor middle [10, 20, 30 :: nat] (<))).
      \<not> cmp_equal (m_compare (set_ctor middle [10, 20, 30 :: nat] (<))) x 15"
    unfolding stored order by (simp add: cmp_equal_def)
  with C9_find_is_lower_bound [of "set_ctor middle [10, 20, 30 :: nat] (<)" 15]
  have "set_find (set_ctor middle [10, 20, 30 :: nat] (<)) 15
       = set_lower_bound (set_ctor middle [10, 20, 30 :: nat] (<)) 15 \<and>
     set_lower_bound (set_ctor middle [10, 20, 30 :: nat] (<)) 15
       = set_end (set_ctor middle [10, 20, 30 :: nat] (<)) \<and>
     set_find (set_ctor middle [10, 20, 30 :: nat] (<)) 15
       = set_end (set_ctor middle [10, 20, 30 :: nat] (<))"
    by blast
  moreover have "set_end (set_ctor middle [10, 20, 30 :: nat] (<)) = 3"
    by code_simp
  ultimately show ?thesis
    by blast
qed

subsection \<open>C10: queries are deterministic and change nothing\<close>

text \<open>
  C10. Every query operation (count, find, lower_bound, upper_bound, equal_range, size,
  empty, max_size, begin, end and the two iterations) leaves the object as it found it;
  asking the same query twice in a row gives the same answer; and after any sequence
  \<open>qs\<close> of queries the object, its stored keys and its comparator are unchanged and the
  query has the answer it had before. This holds of an object \<open>s\<close> of the primary
  template and of an object \<open>z\<close> of the specialization for \<open>N = 0\<close>.
\<close>

theorem C10_queries_are_pure:
  "snd (call s q) = s \<and>
   fst (call (snd (call s q)) q) = fst (call s q) \<and>
   snd (calls s qs) = s \<and>
   fst (call (snd (calls s qs)) q) = fst (call s q) \<and>
   m_keys (snd (calls s qs)) = m_keys s \<and>
   m_compare (snd (calls s qs)) = m_compare s \<and>
   snd (call0 z q) = z \<and>
   fst (call0 (snd (call0 z q)) q) = fst (call0 z q) \<and>
   snd (calls0 z qs) = z \<and>
   fst (call0 (snd (calls0 z qs)) q) = fst (call0 z q) \<and>
   m_compare0 (snd (calls0 z qs)) = m_compare0 z"
  by (simp add: call_unchanged calls_unchanged call0_unchanged calls0_unchanged)

end
